theory Spec2Isabelle
  imports Main
begin

section \<open>Instants and the proleptic Gregorian calendar\<close>

text \<open>
  The recurrence engine of \<^verbatim>\<open>package storage\<close> works on Go \<^verbatim>\<open>time.Time\<close> values and uses
  three operations of the standard library: \<^verbatim>\<open>t.Before(u)\<close>, \<^verbatim>\<open>t.AddDate(y, m, d)\<close> and
  \<^verbatim>\<open>time.Now()\<close>.  An instant is modelled as the number of nanoseconds since Go's zero time,
  0001-01-01 00:00:00 UTC.  The calendar is read in UTC: a location with a fixed offset
  shifts every instant by the same amount and changes nothing below; daylight-saving
  locations are outside the model.  The range limits of \<^verbatim>\<open>int64\<close> are not modelled, an
  instant is an unbounded integer.
\<close>

type_synonym Time = int

definition nsPerDay :: int where
  "nsPerDay = 86400000000000"

definition Before :: "Time \<Rightarrow> Time \<Rightarrow> bool" where
  "Before t u = (t < u)"

definition isLeap :: "int \<Rightarrow> bool" where
  "isLeap year = (year mod 4 = 0 \<and> (if year mod 100 = 0 then year mod 400 = 0 else True))"

text \<open>\<^verbatim>\<open>daysBefore[m]\<close>: the days of a non-leap year before month \<open>m + 1\<close> starts.\<close>

definition daysBefore :: "int \<Rightarrow> int" where
  "daysBefore m =
     (if m \<le> 0 then 0 else if m = 1 then 31 else if m = 2 then 59 else if m = 3 then 90
      else if m = 4 then 120 else if m = 5 then 151 else if m = 6 then 181
      else if m = 7 then 212 else if m = 8 then 243 else if m = 9 then 273
      else if m = 10 then 304 else if m = 11 then 334 else 365)"

definition daysIn :: "int \<Rightarrow> int \<Rightarrow> int" where
  "daysIn month year =
     (if month = 2 \<and> isLeap year then 29 else daysBefore month - daysBefore (month - 1))"

text \<open>The days from 0001-01-01 to the first of January of \<open>year\<close>.\<close>

definition daysSinceEpoch :: "int \<Rightarrow> int" where
  "daysSinceEpoch year =
     365 * (year - 1) + (year - 1) div 4 - (year - 1) div 100 + (year - 1) div 400"

definition monthStart :: "int \<Rightarrow> int \<Rightarrow> int" where
  "monthStart year month =
     daysBefore (month - 1) + (if isLeap year \<and> 3 \<le> month then 1 else 0)"

text \<open>
  The day number of a date as \<^verbatim>\<open>time.Date\<close> computes it: the month is normalised into
  the year first, the day is then added as an offset, so that a month outside 1..12 and
  a day outside the month roll over into the neighbouring year and month.
\<close>

definition dateToDays :: "int \<Rightarrow> int \<Rightarrow> int \<Rightarrow> int" where
  "dateToDays year month day =
     (let m = month - 1;
          y = year + m div 12;
          mo = m mod 12 + 1
      in daysSinceEpoch y + monthStart y mo + (day - 1))"

text \<open>
  The year and the day within the year of a day number: 400-year, 100-year, 4-year and
  1-year cycles are cut off in turn; the last 100-year cycle of a 400-year cycle and the
  last year of a 4-year cycle are one day longer.
\<close>

definition yearOfDays :: "int \<Rightarrow> int \<times> int" where
  "yearOfDays d =
     (let n400 = d div 146097;
          d1 = d - 146097 * n400;
          c100 = d1 div 36524;
          n100 = c100 - c100 div 4;
          d2 = d1 - 36524 * n100;
          n4 = d2 div 1461;
          d3 = d2 - 1461 * n4;
          c1 = d3 div 365;
          n1 = c1 - c1 div 4;
          d4 = d3 - 365 * n1
      in (400 * n400 + 100 * n100 + 4 * n4 + n1 + 1, d4))"

definition monthOfYday :: "bool \<Rightarrow> int \<Rightarrow> int" where
  "monthOfYday leap yday =
     (let l = (if leap then 1 else 0) in
      if yday < 31 then 1 else if yday < 59 + l then 2 else if yday < 90 + l then 3
      else if yday < 120 + l then 4 else if yday < 151 + l then 5
      else if yday < 181 + l then 6 else if yday < 212 + l then 7
      else if yday < 243 + l then 8 else if yday < 273 + l then 9
      else if yday < 304 + l then 10 else if yday < 334 + l then 11 else 12)"

definition daysToDate :: "int \<Rightarrow> int \<times> int \<times> int" where
  "daysToDate d =
     (case yearOfDays d of (year, yday) \<Rightarrow>
        (let month = monthOfYday (isLeap year) yday
         in (year, month, yday - monthStart year month + 1)))"

text \<open>\<^verbatim>\<open>t.Date()\<close> and the time of day of an instant.\<close>

definition civilDate :: "Time \<Rightarrow> int \<times> int \<times> int" where
  "civilDate t = daysToDate (t div nsPerDay)"

definition clockOf :: "Time \<Rightarrow> int" where
  "clockOf t = t mod nsPerDay"

text \<open>\<^verbatim>\<open>time.Date(year, month, day, ...)\<close> with the time of day given in nanoseconds.\<close>

definition mkTime :: "int \<Rightarrow> int \<Rightarrow> int \<Rightarrow> int \<Rightarrow> Time" where
  "mkTime year month day ns = dateToDays year month day * nsPerDay + ns"

text \<open>
  \<^verbatim>\<open>t.AddDate(years, months, days)\<close>: the date of \<open>t\<close> with the three numbers added field
  by field, normalised as \<^verbatim>\<open>time.Date\<close> does, at the same time of day.
\<close>

definition AddDate :: "Time \<Rightarrow> int \<Rightarrow> int \<Rightarrow> int \<Rightarrow> Time" where
  "AddDate t years months days =
     (case civilDate t of (year, month, day) \<Rightarrow>
        mkTime (year + years) (month + months) (day + days) (clockOf t))"

text \<open>
  The calendar rule the specification calls standard date-overflow normalisation, written
  from its words: the month after a month, and a day that does not exist in its month
  rolling forward into the next one by the number of days it overshoots.
\<close>

definition nextMonth :: "int \<Rightarrow> int \<Rightarrow> int \<times> int" where
  "nextMonth year month = (if month = 12 then (year + 1, 1) else (year, month + 1))"

definition rollForward :: "int \<Rightarrow> int \<Rightarrow> int \<Rightarrow> int \<times> int \<times> int" where
  "rollForward year month day =
     (if day \<le> daysIn month year then (year, month, day)
      else (case nextMonth year month of (y, m) \<Rightarrow> (y, m, day - daysIn month year)))"

section \<open>Data model\<close>

text \<open>
  The structs \<^verbatim>\<open>Expense\<close> and \<^verbatim>\<open>RecurringExpense\<close> of \<^verbatim>\<open>package storage\<close>, with the
  fields that the store's code reads and writes.  The amount is a \<^verbatim>\<open>float64\<close> that the engine only
  copies, so its type is left open.  \<^verbatim>\<open>Occurrences\<close> is a Go \<^verbatim>\<open>int\<close>; it is only compared
  with zero and decremented while positive, so it never wraps and is an unbounded integer
  here.  The two structs share field names; a selector is qualified with its record where
  that matters (\<open>RecurringExpense.ID recExp\<close> for \<^verbatim>\<open>recExp.ID\<close>).
\<close>

record 'a Expense =
  ID :: string
  RecurringID :: string
  Name :: string
  Category :: string
  SubCategory :: string
  Amount :: 'a
  Currency :: string
  Date :: Time
  Tags :: "string list"

record 'a RecurringExpense =
  ID :: string
  Name :: string
  Amount :: 'a
  Currency :: string
  Category :: string
  StartDate :: Time
  Interval :: string
  Occurrences :: int
  Tags :: "string list"

section \<open>Expanding a rule into entries\<close>

text \<open>
  The \<^verbatim>\<open>switch recExp.Interval\<close> that both loops of
  \<^verbatim>\<open>generateExpensesFromRecurring\<close> run to step the cursor; \<open>None\<close> is its
  \<^verbatim>\<open>default\<close> branch, which returns from the function.
\<close>

definition nextDate :: "string \<Rightarrow> Time \<Rightarrow> Time option" where
  "nextDate interval currentDate =
     (if interval = ''daily'' then Some (AddDate currentDate 0 0 1)
      else if interval = ''weekly'' then Some (AddDate currentDate 0 0 7)
      else if interval = ''monthly'' then Some (AddDate currentDate 0 1 0)
      else if interval = ''yearly'' then Some (AddDate currentDate 1 0 0)
      else None)"

text \<open>
  The loop under \<^verbatim>\<open>if fromToday\<close>.  It yields the cursor and the remaining budget when the
  loop condition fails, and \<open>None\<close> when the interval is invalid and the function returns
  the empty slice.  Every step moves the cursor forward (\<open>nextDate_gt\<close> below), so the
  loop ends once the cursor is no longer before \<open>today\<close>; the termination proof follows
  the calendar facts it needs.
\<close>

function fastForward :: "'a RecurringExpense \<Rightarrow> Time \<Rightarrow> Time \<Rightarrow> int \<Rightarrow> (Time \<times> int) option" where
  "fastForward recExp today currentDate occurrencesToGenerate =
     (if Before currentDate today \<and> (Occurrences recExp = 0 \<or> 0 < occurrencesToGenerate) then
        (case nextDate (Interval recExp) currentDate of
           None \<Rightarrow> None
         | Some d \<Rightarrow>
             fastForward recExp today d
               (if 0 < Occurrences recExp then occurrencesToGenerate - 1
                else occurrencesToGenerate))
      else Some (currentDate, occurrencesToGenerate))"
  by pat_completeness auto

text \<open>
  The entry built in the body of \<^verbatim>\<open>for range limit\<close>; \<open>uuid\<close> stands for
  \<^verbatim>\<open>uuid.New().String()\<close>.  The struct literal does not set \<^verbatim>\<open>SubCategory\<close>, which stays empty.
\<close>

definition newExpense :: "'a RecurringExpense \<Rightarrow> string \<Rightarrow> Time \<Rightarrow> 'a Expense" where
  "newExpense recExp uuid currentDate =
     \<lparr>Expense.ID = uuid,
      RecurringID = RecurringExpense.ID recExp,
      Name = RecurringExpense.Name recExp,
      Category = RecurringExpense.Category recExp,
      SubCategory = [],
      Amount = RecurringExpense.Amount recExp,
      Currency = RecurringExpense.Currency recExp,
      Date = currentDate,
      Tags = RecurringExpense.Tags recExp\<rparr>"

text \<open>
  \<^verbatim>\<open>for range limit\<close> runs \<open>limit\<close> times and not at all for a limit below one, hence
  \<open>nat limit\<close> rounds.  The \<open>i\<close>-th entry takes the \<open>i\<close>-th identifier of the supply
  \<open>uuids\<close>.  The entry is appended before the interval is looked at, so an invalid interval
  returns the list with that entry in it.
\<close>

fun emitLoop :: "'a RecurringExpense \<Rightarrow> (nat \<Rightarrow> string) \<Rightarrow> nat \<Rightarrow> Time \<Rightarrow> nat \<Rightarrow> 'a Expense list" where
  "emitLoop recExp uuids i currentDate 0 = []"
| "emitLoop recExp uuids i currentDate (Suc n) =
     newExpense recExp (uuids i) currentDate #
       (case nextDate (Interval recExp) currentDate of
          None \<Rightarrow> []
        | Some d \<Rightarrow> emitLoop recExp uuids (Suc i) d n)"

text \<open>
  \<open>today\<close> is the value of \<^verbatim>\<open>time.Now()\<close> read at the start of the call.
\<close>

definition generateExpensesFromRecurring ::
  "Time \<Rightarrow> (nat \<Rightarrow> string) \<Rightarrow> 'a RecurringExpense \<Rightarrow> bool \<Rightarrow> 'a Expense list" where
  "generateExpensesFromRecurring today uuids recExp fromToday =
     (case (if fromToday
            then fastForward recExp today (StartDate recExp) (Occurrences recExp)
            else Some (StartDate recExp, Occurrences recExp)) of
        None \<Rightarrow> []
      | Some (currentDate, limit) \<Rightarrow> emitLoop recExp uuids 0 currentDate (nat limit))"

text \<open>
  Notions used to state properties of the expansion: the interval kinds the switch knows,
  the cursor after \<open>k\<close> steps, the budget units the fast-forward loop took off, and the
  number of the first \<open>k\<close> steps that end before \<open>today\<close>.
\<close>

definition validInterval :: "string \<Rightarrow> bool" where
  "validInterval interval =
     (interval = ''daily'' \<or> interval = ''weekly'' \<or> interval = ''monthly''
      \<or> interval = ''yearly'')"

fun advance :: "string \<Rightarrow> nat \<Rightarrow> Time \<Rightarrow> Time" where
  "advance interval 0 t = t"
| "advance interval (Suc k) t =
     (case nextDate interval t of None \<Rightarrow> t | Some d \<Rightarrow> advance interval k d)"

definition fastForwardConsumed :: "'a RecurringExpense \<Rightarrow> Time \<Rightarrow> bool \<Rightarrow> int" where
  "fastForwardConsumed recExp today fromToday =
     (if fromToday then
        (case fastForward recExp today (StartDate recExp) (Occurrences recExp) of
           None \<Rightarrow> 0
         | Some (currentDate, remaining) \<Rightarrow> Occurrences recExp - remaining)
      else 0)"

definition stepsLandingBefore :: "string \<Rightarrow> Time \<Rightarrow> Time \<Rightarrow> nat \<Rightarrow> nat" where
  "stepsLandingBefore interval today start k =
     length (filter (\<lambda>j. Before (advance interval (Suc j) start) today) [0..<k])"

section \<open>The store\<close>

text \<open>
  The two tables the recurrence engine touches, as lists of rows, and the store with its
  \<^verbatim>\<open>defaults\<close> map.  Every row the program writes carries a \<^verbatim>\<open>recurring_id\<close> string (empty
  for a manual entry), so the column is a string.  The primary key on \<^verbatim>\<open>expenses.id\<close> is
  checked when rows are copied in; other failures of the database (connection loss, column
  limits, rounding of \<^verbatim>\<open>NUMERIC\<close> and \<^verbatim>\<open>TIMESTAMPTZ\<close> values) are outside the model.
\<close>

record 'a database =
  expenses :: "'a Expense list"
  recurring_expenses :: "'a RecurringExpense list"

record 'a databaseStore =
  db :: "'a database"
  defaults :: "string \<rightharpoonup> string"

datatype error = NotFoundToUpdate string | NotFound string | CopyInFailed

text \<open>\<^verbatim>\<open>s.defaults[key]\<close>: a missing key reads as the empty string.\<close>

definition defaultOf :: "'a databaseStore \<Rightarrow> string \<Rightarrow> string" where
  "defaultOf s key = (case defaults s key of None \<Rightarrow> [] | Some v \<Rightarrow> v)"

text \<open>
  \<^verbatim>\<open>tx, _ := s.db.Begin(); defer tx.Rollback(); ...; return tx.Commit()\<close>: the body works on
  the transaction's view of the tables; an error return leaves the store as it was, a
  normal return installs the view.
\<close>

definition transaction ::
  "('a database \<Rightarrow> error + 'a database) \<Rightarrow> 'a databaseStore \<Rightarrow> error option \<times> 'a databaseStore" where
  "transaction body s =
     (case body (db s) of
        Inl err \<Rightarrow> (Some err, s)
      | Inr tx \<Rightarrow> (None, s\<lparr>db := tx\<rparr>))"

text \<open>The SQL statements, each with the number of rows it affected where the code reads it.\<close>

definition execUpdateRule :: "string \<Rightarrow> 'a RecurringExpense \<Rightarrow> 'a database \<Rightarrow> 'a database \<times> nat" where
  "execUpdateRule rid recurringExpense tx =
     (tx\<lparr>recurring_expenses :=
          map (\<lambda>row. if RecurringExpense.ID row = rid
                     then recurringExpense\<lparr>RecurringExpense.ID := rid\<rparr> else row)
            (recurring_expenses tx)\<rparr>,
      length (filter (\<lambda>row. RecurringExpense.ID row = rid) (recurring_expenses tx)))"

definition execDeleteRule :: "string \<Rightarrow> 'a database \<Rightarrow> 'a database \<times> nat" where
  "execDeleteRule rid tx =
     (tx\<lparr>recurring_expenses :=
          filter (\<lambda>row. RecurringExpense.ID row \<noteq> rid) (recurring_expenses tx)\<rparr>,
      length (filter (\<lambda>row. RecurringExpense.ID row = rid) (recurring_expenses tx)))"

definition execDeleteInstances :: "string \<Rightarrow> 'a database \<Rightarrow> 'a database" where
  "execDeleteInstances rid tx =
     tx\<lparr>expenses := filter (\<lambda>e. RecurringID e \<noteq> rid) (expenses tx)\<rparr>"

definition execDeleteInstancesAfter :: "string \<Rightarrow> Time \<Rightarrow> 'a database \<Rightarrow> 'a database" where
  "execDeleteInstancesAfter rid now tx =
     tx\<lparr>expenses := filter (\<lambda>e. \<not> (RecurringID e = rid \<and> now < Date e)) (expenses tx)\<rparr>"

definition copyIn :: "'a Expense list \<Rightarrow> 'a database \<Rightarrow> error + 'a database" where
  "copyIn rows tx =
     (if distinct (map Expense.ID rows)
         \<and> set (map Expense.ID rows) \<inter> set (map Expense.ID (expenses tx)) = {}
      then Inr (tx\<lparr>expenses := expenses tx @ rows\<rparr>)
      else Inl CopyInFailed)"

text \<open>
  The first lines of \<^verbatim>\<open>UpdateRecurringExpense\<close>: the id of the call replaces the rule's
  own, an empty currency is replaced by the default.
\<close>

definition withDefaults :: "'a databaseStore \<Rightarrow> string \<Rightarrow> 'a RecurringExpense \<Rightarrow> 'a RecurringExpense" where
  "withDefaults s rid recurringExpense =
     (let re = recurringExpense\<lparr>RecurringExpense.ID := rid\<rparr>
      in if RecurringExpense.Currency re = []
         then re\<lparr>RecurringExpense.Currency := defaultOf s ''currency''\<rparr> else re)"

text \<open>
  \<open>clock\<close> gives the successive values of \<^verbatim>\<open>time.Now()\<close> during the call.  With
  \<^verbatim>\<open>updateAll\<close> unset the \<^verbatim>\<open>DELETE\<close> reads the clock first and the expansion reads it
  a second time; with \<^verbatim>\<open>updateAll\<close> set only the expansion reads it.
\<close>

definition UpdateRecurringExpense ::
  "'a databaseStore \<Rightarrow> (nat \<Rightarrow> Time) \<Rightarrow> (nat \<Rightarrow> string) \<Rightarrow> string \<Rightarrow> 'a RecurringExpense \<Rightarrow> bool
   \<Rightarrow> error option \<times> 'a databaseStore" where
  "UpdateRecurringExpense s clock uuids rid recurringExpense updateAll =
     transaction (\<lambda>tx.
       let re = withDefaults s rid recurringExpense in
       case execUpdateRule rid re tx of (tx1, rowsAffected) \<Rightarrow>
         if rowsAffected = 0 then Inl (NotFoundToUpdate rid)
         else
           let tx2 = (if updateAll then execDeleteInstances rid tx1
                      else execDeleteInstancesAfter rid (clock 0) tx1);
               expensesToAdd =
                 generateExpensesFromRecurring (clock (if updateAll then 0 else 1)) uuids re
                   (\<not> updateAll)
           in if 0 < length expensesToAdd then copyIn expensesToAdd tx2 else Inr tx2) s"

definition RemoveRecurringExpense ::
  "'a databaseStore \<Rightarrow> (nat \<Rightarrow> Time) \<Rightarrow> string \<Rightarrow> bool \<Rightarrow> error option \<times> 'a databaseStore" where
  "RemoveRecurringExpense s clock rid removeAll' =
     transaction (\<lambda>tx.
       case execDeleteRule rid tx of (tx1, rowsAffected) \<Rightarrow>
         if rowsAffected = 0 then Inl (NotFound rid)
         else Inr (if removeAll' then execDeleteInstances rid tx1
                   else execDeleteInstancesAfter rid (clock 0) tx1)) s"

section \<open>Example data\<close>

definition uuidSeq :: "nat \<Rightarrow> string" where
  "uuidSeq i = ''uuid-'' @ replicate i (CHR ''x'')"

definition gymRule :: "int RecurringExpense" where
  "gymRule = \<lparr>RecurringExpense.ID = ''rule-1'', Name = ''Gym'', Amount = - 30, Currency = ''USD'',
     Category = ''Health'', StartDate = mkTime 2026 1 1 0, Interval = ''daily'',
     Occurrences = 5, Tags = [''sport'']\<rparr>"

definition noon :: int where
  "noon = 43200000000000"

definition demoStore :: "int databaseStore" where
  "demoStore =
     \<lparr>db = \<lparr>expenses =
              [\<lparr>Expense.ID = ''e-1'', RecurringID = ''rule-1'', Name = ''Gym'',
                 Category = ''Health'', SubCategory = [], Amount = - 25, Currency = ''USD'',
                 Date = mkTime 2025 12 31 0, Tags = []\<rparr>,
               \<lparr>Expense.ID = ''e-2'', RecurringID = ''rule-1'', Name = ''Gym'',
                 Category = ''Health'', SubCategory = [], Amount = - 25, Currency = ''USD'',
                 Date = mkTime 2026 1 9 0, Tags = []\<rparr>,
               \<lparr>Expense.ID = ''e-3'', RecurringID = [], Name = ''Lunch'',
                 Category = ''Food'', SubCategory = [], Amount = - 12, Currency = ''USD'',
                 Date = mkTime 2026 1 9 0, Tags = []\<rparr>],
            recurring_expenses = [gymRule\<lparr>Occurrences := 9\<rparr>]\<rparr>,
      defaults = [''currency'' \<mapsto> ''USD'']\<rparr>"

definition demoClock :: "nat \<Rightarrow> Time" where
  "demoClock i = mkTime 2026 1 3 noon + int i"

definition boundaryClock :: "nat \<Rightarrow> Time" where
  "boundaryClock i = mkTime 2026 1 1 0"

section \<open>The calendar functions are inverse to each other\<close>

lemma dse_decomp:
  assumes "0 \<le> n100" "n100 \<le> 3" "0 \<le> n4" "n4 \<le> 24" "0 \<le> n1" "n1 \<le> 3"
  shows "daysSinceEpoch (400 * n400 + 100 * n100 + 4 * n4 + n1 + 1)
         = 146097 * n400 + 36524 * n100 + 1461 * n4 + 365 * n1"
proof -
  let ?Y = "400 * n400 + 100 * n100 + 4 * n4 + n1"
  have a: "?Y = 4 * (100 * n400 + 25 * n100 + n4) + n1" by simp
  have b: "?Y = 100 * (4 * n400 + n100) + (4 * n4 + n1)" by simp
  have c: "?Y = 400 * n400 + (100 * n100 + 4 * n4 + n1)" by simp
  have q4: "?Y div 4 = 100 * n400 + 25 * n100 + n4"
    using assms by (subst a) simp
  have q100: "?Y div 100 = 4 * n400 + n100"
    using assms by (subst b) simp
  have q400: "?Y div 400 = n400"
    using assms by (subst c) simp
  show ?thesis
    unfolding daysSinceEpoch_def using q4 q100 q400 by simp
qed

lemma cut_cycle:
  fixes d :: int and len :: int
  assumes len: "0 < len" and d: "0 \<le> d" "d \<le> 4 * len"
  defines "c \<equiv> d div len"
  defines "n \<equiv> c - c div 4"
  shows "0 \<le> n \<and> n \<le> 3 \<and> 0 \<le> d - len * n \<and> d - len * n \<le> len
         \<and> (d < 4 * len \<longrightarrow> d - len * n < len)"
proof -
  have m: "d = len * c + d mod len" "0 \<le> d mod len" "d mod len < len"
    using len by (simp_all add: c_def)
  have c0: "0 \<le> c" using len d by (simp add: c_def pos_imp_zdiv_nonneg_iff)
  have "len * c \<le> 4 * len" using m d by linarith
  then have c4: "c \<le> 4" using len by simp
  have n: "n = (if c = 4 then 3 else c)"
    using c0 c4 unfolding n_def by presburger
  show ?thesis
  proof (cases "c = 4")
    case True
    then have "d = 4 * len + d mod len" using m(1) by simp
    then have "d = 4 * len" using m(2) d by linarith
    then show ?thesis using n True len by simp
  next
    case False
    then have "d - len * n = d mod len" using n m by simp
    moreover have "n \<le> 3" using n False c0 c4 by simp
    moreover have "0 \<le> n" using n False c0 by simp
    ultimately show ?thesis using m by simp
  qed
qed

lemma yearOfDays_props:
  assumes "yearOfDays d = (y, yd)"
  shows "daysSinceEpoch y + yd = d \<and> 0 \<le> yd \<and> yd < 365 + (if isLeap y then 1 else 0)"
proof -
  define n400 where "n400 = d div 146097"
  define d1 where "d1 = d - 146097 * n400"
  define n100 where "n100 = d1 div 36524 - d1 div 36524 div 4"
  define d2 where "d2 = d1 - 36524 * n100"
  define n4 where "n4 = d2 div 1461"
  define d3 where "d3 = d2 - 1461 * n4"
  define n1 where "n1 = d3 div 365 - d3 div 365 div 4"
  define d4 where "d4 = d3 - 365 * n1"
  have "yearOfDays d = (400 * n400 + 100 * n100 + 4 * n4 + n1 + 1, d4)"
    unfolding yearOfDays_def Let_def d4_def n1_def d3_def n4_def d2_def n100_def d1_def
      n400_def by (rule refl)
  with assms have y: "y = 400 * n400 + 100 * n100 + 4 * n4 + n1 + 1" and yd: "yd = d4"
    by simp_all
  have "d1 = d mod 146097"
    unfolding d1_def n400_def by (simp add: minus_mult_div_eq_mod)
  then have d1: "0 \<le> d1" "d1 \<le> 4 * 36524" by simp_all
  have c100: "0 \<le> n100" "n100 \<le> 3" "0 \<le> d2" "d2 \<le> 36524"
    and c100': "d1 < 146096 \<Longrightarrow> d2 < 36524"
    using cut_cycle [of 36524 d1] d1 unfolding n100_def d2_def by simp_all
  have m4: "d2 = 1461 * n4 + d2 mod 1461" "0 \<le> d2 mod 1461" "d2 mod 1461 < 1461"
    unfolding n4_def by simp_all
  have n4: "0 \<le> n4" "n4 \<le> 24"
    using c100 m4 unfolding n4_def by (simp add: pos_imp_zdiv_nonneg_iff, linarith)
  have d3: "0 \<le> d3" "d3 \<le> 4 * 365"
    using m4 unfolding d3_def by linarith+
  have c1: "0 \<le> n1" "n1 \<le> 3" "0 \<le> d4" "d4 \<le> 365"
    and c1': "d3 < 1460 \<Longrightarrow> d4 < 365"
    using cut_cycle [of 365 d3] d3 unfolding n1_def d4_def by simp_all
  have sum: "d = 146097 * n400 + 36524 * n100 + 1461 * n4 + 365 * n1 + d4"
    unfolding d4_def d3_def d2_def d1_def by simp
  have dse: "daysSinceEpoch y = 146097 * n400 + 36524 * n100 + 1461 * n4 + 365 * n1"
    unfolding y using c100(1,2) n4 c1(1,2) by (rule dse_decomp)
  have leap: "isLeap y" if full: "d4 = 365"
  proof -
    have d3_1460: "d3 = 1460" using c1' full d3 by force
    then have n1_3: "n1 = 3" using full unfolding d4_def by simp
    have y4: "y = 4 * (100 * n400 + 25 * n100 + n4 + 1)" unfolding y n1_3 by simp
    have "y mod 4 = 0" by (subst y4) simp
    moreover have "y mod 400 = 0" if "y mod 100 = 0"
    proof -
      have "y = 100 * (4 * n400 + n100) + (4 * n4 + 4)" unfolding y n1_3 by simp
      then have "y mod 100 = (4 * n4 + 4) mod 100" by (simp only: mod_mult_self4)
      with that have "(4 * n4 + 4) mod 100 = 0" by simp
      moreover have "(4 * n4 + 4) mod 100 = 4 * n4 + 4" if "n4 < 24"
        using that n4 by simp
      ultimately have "n4 = 24" using n4 by force
      with d3_1460 have "d2 = 36524" unfolding d3_def by simp
      with c100' d1 have "d1 = 146096" by force
      with \<open>d2 = 36524\<close> have "n100 = 3" unfolding d2_def by simp
      with \<open>n4 = 24\<close> n1_3 have "y = 400 * (n400 + 1)" unfolding y by simp
      then show ?thesis by simp
    qed
    ultimately show ?thesis by (simp add: isLeap_def)
  qed
  have "yd < 365 + (if isLeap y then 1 else 0)"
    using leap c1 yd by (cases "d4 = 365") auto
  then show ?thesis using sum dse yd c1 by simp
qed

lemma monthOfYday_props:
  assumes "0 \<le> yd" "yd < 365 + (if isLeap y then 1 else 0)"
  defines "m \<equiv> monthOfYday (isLeap y) yd"
  shows "1 \<le> m \<and> m \<le> 12 \<and> monthStart y m \<le> yd \<and> yd < monthStart y m + daysIn m y"
proof (cases "isLeap y")
  case True
  with assms(1,2) show ?thesis
    unfolding m_def monthOfYday_def monthStart_def daysIn_def daysBefore_def by simp
next
  case False
  with assms(1,2) show ?thesis
    unfolding m_def monthOfYday_def monthStart_def daysIn_def daysBefore_def by simp
qed

lemma dateToDays_month_in_range:
  "1 \<le> m \<Longrightarrow> m \<le> 12 \<Longrightarrow> dateToDays y m d = daysSinceEpoch y + monthStart y m + (d - 1)"
  by (simp add: dateToDays_def Let_def)

lemma daysToDate_sound:
  assumes "daysToDate n = (y, m, d)"
  shows "dateToDays y m d = n \<and> 1 \<le> m \<and> m \<le> 12 \<and> 1 \<le> d \<and> d \<le> daysIn m y"
proof -
  obtain yd where yo: "yearOfDays n = (y, yd)"
    and m: "m = monthOfYday (isLeap y) yd" and d: "d = yd - monthStart y m + 1"
    using assms by (auto simp: daysToDate_def Let_def split: prod.splits)
  from yearOfDays_props [OF yo]
  have n: "daysSinceEpoch y + yd = n" and yd: "0 \<le> yd" "yd < 365 + (if isLeap y then 1 else 0)"
    by simp_all
  from monthOfYday_props [OF yd] m
  have mp: "1 \<le> m" "m \<le> 12" "monthStart y m \<le> yd" "yd < monthStart y m + daysIn m y"
    by simp_all
  show ?thesis
    using mp n d by (simp add: dateToDays_month_in_range)
qed

lemma div_step:
  fixes y k :: int
  assumes "0 < k"
  shows "y div k = (y - 1) div k + (if y mod k = 0 then 1 else 0)"
proof (cases "y mod k = 0")
  case True
  then obtain q where q: "y = k * q" by auto
  have "y - 1 = k * (q - 1) + (k - 1)" unfolding q by (simp add: algebra_simps)
  then have "(y - 1) div k = q - 1 + (k - 1) div k"
    using assms by (metis div_mult_self2 add.commute less_irrefl)
  then show ?thesis using True q assms by simp
next
  case False
  have m: "y = k * (y div k) + y mod k" "0 \<le> y mod k" "y mod k < k" using assms by simp_all
  then have "y - 1 = k * (y div k) + (y mod k - 1)" by simp
  moreover have "0 \<le> y mod k - 1" "y mod k - 1 < k" using m False by linarith+
  ultimately have "(y - 1) div k = y div k"
    using assms
    by (metis add.commute add.right_neutral div_mult_self2 div_pos_pos_trivial less_irrefl)
  then show ?thesis using False by simp
qed

lemma leap_divisors:
  fixes y :: int
  shows "y mod 400 = 0 \<Longrightarrow> y mod 100 = 0" "y mod 100 = 0 \<Longrightarrow> y mod 4 = 0"
  by presburger+

lemma daysSinceEpoch_Suc:
  "daysSinceEpoch (y + 1) = daysSinceEpoch y + 365 + (if isLeap y then 1 else 0)"
proof -
  have "daysSinceEpoch (y + 1) = 365 * y + y div 4 - y div 100 + y div 400"
    by (simp add: daysSinceEpoch_def)
  also have "\<dots> = daysSinceEpoch y + 365 + (if y mod 4 = 0 then 1 else 0)
      - (if y mod 100 = 0 then 1 else 0) + (if y mod 400 = 0 then 1 else 0)"
    unfolding daysSinceEpoch_def
    by (subst div_step [of 4 y], simp, subst div_step [of 100 y], simp,
        subst div_step [of 400 y], simp, simp add: algebra_simps)
  also have "\<dots> = daysSinceEpoch y + 365 + (if isLeap y then 1 else 0)"
    using leap_divisors [of y] by (auto simp: isLeap_def)
  finally show ?thesis .
qed

lemma daysSinceEpoch_mono_aux:
  "0 \<le> k \<Longrightarrow> daysSinceEpoch y + 365 * k \<le> daysSinceEpoch (y + k)"
proof (induction k rule: int_ge_induct)
  case base
  show ?case by simp
next
  case (step i)
  have "daysSinceEpoch (y + (i + 1)) = daysSinceEpoch ((y + i) + 1)" by (simp add: add.assoc)
  also have "\<dots> \<ge> daysSinceEpoch (y + i) + 365" by (simp add: daysSinceEpoch_Suc)
  finally show ?case using step.IH by simp
qed

lemma daysSinceEpoch_mono: "y \<le> y' \<Longrightarrow> daysSinceEpoch y \<le> daysSinceEpoch y'"
  using daysSinceEpoch_mono_aux [of "y' - y" y] by simp

lemma yearOfDays_complete:
  assumes "0 \<le> yd" "yd < 365 + (if isLeap y then 1 else 0)"
  shows "yearOfDays (daysSinceEpoch y + yd) = (y, yd)"
proof -
  obtain y' yd' where r: "yearOfDays (daysSinceEpoch y + yd) = (y', yd')"
    by (cases "yearOfDays (daysSinceEpoch y + yd)")
  from yearOfDays_props [OF r]
  have p: "daysSinceEpoch y' + yd' = daysSinceEpoch y + yd" "0 \<le> yd'"
    "yd' < 365 + (if isLeap y' then 1 else 0)" by simp_all
  have "\<not> y < y'"
  proof
    assume "y < y'"
    then have "daysSinceEpoch (y + 1) \<le> daysSinceEpoch y'" by (simp add: daysSinceEpoch_mono)
    then show False using p assms by (simp add: daysSinceEpoch_Suc split: if_splits)
  qed
  moreover have "\<not> y' < y"
  proof
    assume "y' < y"
    then have "daysSinceEpoch (y' + 1) \<le> daysSinceEpoch y" by (simp add: daysSinceEpoch_mono)
    then show False using p assms by (simp add: daysSinceEpoch_Suc split: if_splits)
  qed
  ultimately have "y' = y" by simp
  with p r show ?thesis by simp
qed

lemma month_cases:
  fixes m :: int
  assumes "1 \<le> m" "m \<le> 12"
  shows "m = 1 \<or> m = 2 \<or> m = 3 \<or> m = 4 \<or> m = 5 \<or> m = 6 \<or> m = 7 \<or> m = 8
      \<or> m = 9 \<or> m = 10 \<or> m = 11 \<or> m = 12"
  using assms by arith

lemma monthOfYday_complete:
  assumes "1 \<le> m" "m \<le> 12" "1 \<le> d" "d \<le> daysIn m y"
  shows "monthOfYday (isLeap y) (monthStart y m + (d - 1)) = m"
  using month_cases [OF assms(1,2)] assms(3,4)
  by (elim disjE; cases "isLeap y";
      simp add: monthOfYday_def monthStart_def daysIn_def daysBefore_def)

lemma monthStart_yearLength:
  assumes "1 \<le> m" "m \<le> 12" "1 \<le> d" "d \<le> daysIn m y"
  shows "monthStart y m + (d - 1) < 365 + (if isLeap y then 1 else 0)"
  using month_cases [OF assms(1,2)] assms(3,4)
  by (elim disjE; cases "isLeap y"; simp add: monthStart_def daysIn_def daysBefore_def)

lemma monthStart_nonneg: "0 \<le> monthStart y m"
  by (simp add: monthStart_def daysBefore_def)

lemma daysToDate_complete:
  assumes "1 \<le> m" "m \<le> 12" "1 \<le> d" "d \<le> daysIn m y"
  shows "daysToDate (dateToDays y m d) = (y, m, d)"
proof -
  let ?yd = "monthStart y m + (d - 1)"
  have "0 \<le> ?yd" using monthStart_nonneg [of y m] assms(3) by simp
  moreover have "?yd < 365 + (if isLeap y then 1 else 0)"
    using assms by (rule monthStart_yearLength)
  ultimately have "yearOfDays (daysSinceEpoch y + ?yd) = (y, ?yd)"
    by (rule yearOfDays_complete)
  moreover have "dateToDays y m d = daysSinceEpoch y + ?yd"
    using assms(1,2) by (simp add: dateToDays_month_in_range)
  ultimately show ?thesis
    using monthOfYday_complete [OF assms] by (simp add: daysToDate_def)
qed

section \<open>Adding days, months and years\<close>

lemma dateToDays_add_days: "dateToDays y m (d + k) = dateToDays y m d + k"
  by (simp add: dateToDays_def Let_def)

lemma civilDate_sound:
  assumes "civilDate t = (y, m, d)"
  shows "dateToDays y m d = t div nsPerDay" "1 \<le> m" "m \<le> 12" "1 \<le> d" "d \<le> daysIn m y"
  using daysToDate_sound [of "t div nsPerDay" y m d] assms by (simp_all add: civilDate_def)

lemma AddDate_days: "AddDate t 0 0 k = t + k * nsPerDay"
proof -
  obtain y m d where c: "civilDate t = (y, m, d)" by (cases "civilDate t")
  have "AddDate t 0 0 k = (t div nsPerDay + k) * nsPerDay + t mod nsPerDay"
    using c civilDate_sound(1) [OF c]
    by (simp add: AddDate_def mkTime_def clockOf_def dateToDays_add_days)
  also have "\<dots> = t + k * nsPerDay"
    by (simp add: algebra_simps)
  finally show ?thesis .
qed

lemma dateToDays_next_month:
  assumes "1 \<le> m" "m \<le> 12"
  shows "dateToDays y (m + 1) d = dateToDays y m d + daysIn m y"
proof (cases "m = 12")
  case True
  have "dateToDays y 13 d = daysSinceEpoch (y + 1) + monthStart (y + 1) 1 + (d - 1)"
    by (simp add: dateToDays_def Let_def)
  then show ?thesis
    using True
    by (simp add: dateToDays_month_in_range daysSinceEpoch_Suc monthStart_def daysIn_def
        daysBefore_def)
next
  case False
  with assms have r: "1 \<le> m + 1" "m + 1 \<le> 12" by simp_all
  have "monthStart y (m + 1) = monthStart y m + daysIn m y"
    using month_cases [OF assms] False
    by (elim disjE; cases "isLeap y"; simp add: monthStart_def daysIn_def daysBefore_def)
  then show ?thesis
    using assms r by (simp add: dateToDays_month_in_range)
qed

lemma daysIn_bounds:
  assumes "1 \<le> m" "m \<le> 12"
  shows "28 \<le> daysIn m y" "daysIn m y \<le> 31"
  using month_cases [OF assms]
  by (elim disjE; cases "isLeap y"; simp add: daysIn_def daysBefore_def)+

lemma dateToDays_next_year:
  assumes "1 \<le> m" "m \<le> 12"
  shows "dateToDays y m d + 365 \<le> dateToDays (y + 1) m d"
    "dateToDays (y + 1) m d \<le> dateToDays y m d + 366"
  using assms
  by (simp_all add: dateToDays_month_in_range daysSinceEpoch_Suc monthStart_def)

lemma nsPerDay_pos: "0 < nsPerDay"
  by (simp add: nsPerDay_def)

lemma mkTime_clock_mono:
  "a < b \<Longrightarrow> a * nsPerDay + t mod nsPerDay < b * nsPerDay + t mod nsPerDay"
  using nsPerDay_pos by simp

lemma AddDate_month_gt: "t < AddDate t 0 1 0"
proof -
  obtain y m d where c: "civilDate t = (y, m, d)" by (cases "civilDate t")
  note s = civilDate_sound [OF c]
  have "dateToDays y m d < dateToDays y (m + 1) d"
    using dateToDays_next_month [OF s(2,3)] daysIn_bounds(1) [OF s(2,3), of y] by simp
  then have "t div nsPerDay < dateToDays y (m + 1) d" using s(1) by simp
  then have "(t div nsPerDay) * nsPerDay + t mod nsPerDay
      < dateToDays y (m + 1) d * nsPerDay + t mod nsPerDay"
    by (rule mkTime_clock_mono)
  then show ?thesis
    using c by (simp add: AddDate_def mkTime_def clockOf_def)
qed

lemma AddDate_year_gt: "t < AddDate t 1 0 0"
proof -
  obtain y m d where c: "civilDate t = (y, m, d)" by (cases "civilDate t")
  note s = civilDate_sound [OF c]
  have "dateToDays y m d < dateToDays (y + 1) m d"
    using dateToDays_next_year(1) [OF s(2,3), of y d] by simp
  then have "t div nsPerDay < dateToDays (y + 1) m d" using s(1) by simp
  then have "(t div nsPerDay) * nsPerDay + t mod nsPerDay
      < dateToDays (y + 1) m d * nsPerDay + t mod nsPerDay"
    by (rule mkTime_clock_mono)
  then show ?thesis
    using c by (simp add: AddDate_def mkTime_def clockOf_def)
qed

lemma mkTime_parts:
  assumes "0 \<le> c" "c < nsPerDay"
  shows "mkTime y m d c div nsPerDay = dateToDays y m d" "mkTime y m d c mod nsPerDay = c"
  using assms by (simp_all add: mkTime_def)

lemma mkTime_add_days: "mkTime y m d c + k * nsPerDay = mkTime y m (d + k) c"
  by (simp add: mkTime_def dateToDays_add_days algebra_simps)

lemma clockOf_range: "0 \<le> clockOf t" "clockOf t < nsPerDay"
  using nsPerDay_pos by (simp_all add: clockOf_def)

lemma civilDate_mkTime_clock:
  "civilDate (mkTime y m d (clockOf t)) = daysToDate (dateToDays y m d)"
  "clockOf (mkTime y m d (clockOf t)) = clockOf t"
  using mkTime_parts [OF clockOf_range, of y m d t] by (simp_all add: civilDate_def clockOf_def)

lemma daysToDate_rollForward:
  assumes "1 \<le> m" "m \<le> 12" "1 \<le> d" "d \<le> 31"
  shows "daysToDate (dateToDays y m d) = rollForward y m d"
proof (cases "d \<le> daysIn m y")
  case True
  with assms show ?thesis by (simp add: rollForward_def daysToDate_complete)
next
  case False
  have m12: "m \<noteq> 12" using False assms(4) by (auto simp: daysIn_def daysBefore_def)
  with assms have r: "1 \<le> m + 1" "m + 1 \<le> 12" by simp_all
  let ?d = "d - daysIn m y"
  have "dateToDays y (m + 1) ?d = dateToDays y m d"
    using dateToDays_next_month [OF assms(1,2), of y ?d] dateToDays_add_days [of y m ?d "daysIn m y"]
    by simp
  moreover have "1 \<le> ?d" using False by simp
  moreover have "?d \<le> daysIn (m + 1) y"
    using daysIn_bounds [OF assms(1,2), of y] daysIn_bounds [OF r, of y] assms(4) by linarith
  ultimately have "daysToDate (dateToDays y m d) = (y, m + 1, ?d)"
    using daysToDate_complete [OF r, of ?d y] by simp
  with False m12 show ?thesis by (simp add: rollForward_def nextMonth_def)
qed

lemma dateToDays_nextMonth:
  assumes "1 \<le> m" "m \<le> 12"
  shows "dateToDays y (m + 1) d = (case nextMonth y m of (y', m') \<Rightarrow> dateToDays y' m' d)"
proof (cases "m = 12")
  case True
  then show ?thesis by (simp add: nextMonth_def dateToDays_def Let_def)
next
  case False
  then show ?thesis by (simp add: nextMonth_def)
qed

lemma nextMonth_range:
  assumes "1 \<le> m" "m \<le> 12" "nextMonth y m = (y', m')"
  shows "1 \<le> m'" "m' \<le> 12"
  using assms by (auto simp: nextMonth_def split: if_splits)

section \<open>The fast-forward loop ends\<close>

lemma nextDate_gt: "nextDate interval t = Some t' \<Longrightarrow> t < t'"
  using AddDate_month_gt [of t] AddDate_year_gt [of t] nsPerDay_pos
  by (auto simp: nextDate_def AddDate_days split: if_splits)

termination fastForward
  by (relation "measure (\<lambda>(recExp, today, currentDate, n). nat (today - currentDate))")
    (auto simp: Before_def dest: nextDate_gt)

declare fastForward.simps [simp del]

section \<open>Facts about the expansion\<close>

lemma nextDate_valid: "validInterval interval \<Longrightarrow> \<exists>d. nextDate interval t = Some d"
  by (auto simp: validInterval_def nextDate_def)

lemma nextDate_invalid: "\<not> validInterval interval \<Longrightarrow> nextDate interval t = None"
  by (simp add: validInterval_def nextDate_def)

lemma fastForward_stop:
  "\<not> (Before cur today \<and> (Occurrences recExp = 0 \<or> 0 < n))
   \<Longrightarrow> fastForward recExp today cur n = Some (cur, n)"
  by (subst fastForward.simps, rule if_not_P)

lemma fastForward_step:
  "Before cur today \<and> (Occurrences recExp = 0 \<or> 0 < n)
   \<Longrightarrow> fastForward recExp today cur n =
       (case nextDate (Interval recExp) cur of
          None \<Rightarrow> None
        | Some d \<Rightarrow> fastForward recExp today d (if 0 < Occurrences recExp then n - 1 else n))"
  by (subst fastForward.simps, rule if_P)

lemma fastForward_unbounded:
  "Occurrences recExp = 0 \<Longrightarrow> fastForward recExp today cur n = Some (d, n') \<Longrightarrow> n' = n"
proof (induction recExp today cur n rule: fastForward.induct)
  case (1 recExp today currentDate n)
  show ?case
  proof (cases "Before currentDate today \<and> (Occurrences recExp = 0 \<or> 0 < n)")
    case True
    with "1.prems" obtain x where x: "nextDate (Interval recExp) currentDate = Some x"
      by (auto simp: fastForward_step [OF True] split: option.splits)
    with "1.prems" have "fastForward recExp today x n = Some (d, n')"
      by (simp add: fastForward_step [OF True])
    with "1.IH" [OF True x] "1.prems"(1) show ?thesis by simp
  next
    case False
    with "1.prems" show ?thesis by (simp add: fastForward_stop [OF False])
  qed
qed

lemma fastForward_bounded:
  "0 < Occurrences recExp \<Longrightarrow> 0 \<le> n \<Longrightarrow> fastForward recExp today cur n = Some (d, n')
   \<Longrightarrow> 0 \<le> n' \<and> n' \<le> n"
proof (induction recExp today cur n rule: fastForward.induct)
  case (1 recExp today currentDate n)
  show ?case
  proof (cases "Before currentDate today \<and> (Occurrences recExp = 0 \<or> 0 < n)")
    case True
    with "1.prems" obtain x where x: "nextDate (Interval recExp) currentDate = Some x"
      by (auto simp: fastForward_step [OF True] split: option.splits)
    with "1.prems" have "fastForward recExp today x (n - 1) = Some (d, n')"
      by (simp add: fastForward_step [OF True])
    moreover have "0 \<le> n - 1" using True "1.prems"(1) by simp
    ultimately have "0 \<le> n' \<and> n' \<le> n - 1"
      using "1.IH" [OF True x] "1.prems"(1) by simp
    then show ?thesis by simp
  next
    case False
    with "1.prems" show ?thesis by (simp add: fastForward_stop [OF False])
  qed
qed

lemma fastForward_steps:
  "validInterval (Interval recExp) \<Longrightarrow> 0 < Occurrences recExp \<Longrightarrow> 0 \<le> n \<Longrightarrow>
   \<exists>k. fastForward recExp today cur n = Some (advance (Interval recExp) k cur, n - int k)
       \<and> int k \<le> n
       \<and> (\<forall>j<k. Before (advance (Interval recExp) j cur) today)
       \<and> (int k < n \<longrightarrow> \<not> Before (advance (Interval recExp) k cur) today)"
proof (induction recExp today cur n rule: fastForward.induct)
  case (1 recExp today currentDate n)
  let ?iv = "Interval recExp"
  show ?case
  proof (cases "Before currentDate today \<and> (Occurrences recExp = 0 \<or> 0 < n)")
    case True
    from nextDate_valid [OF "1.prems"(1)]
    obtain x where x: "nextDate ?iv currentDate = Some x" by blast
    have n1: "0 \<le> n - 1" using True "1.prems"(2) by simp
    from "1.IH" [OF True x "1.prems"(1,2)] n1 "1.prems"(2)
    obtain k where k: "fastForward recExp today x (n - 1) = Some (advance ?iv k x, n - 1 - int k)"
      "int k \<le> n - 1" "\<forall>j<k. Before (advance ?iv j x) today"
      "int k < n - 1 \<longrightarrow> \<not> Before (advance ?iv k x) today"
      by auto
    have "fastForward recExp today currentDate n
        = Some (advance ?iv (Suc k) currentDate, n - int (Suc k))"
      using x k(1) "1.prems"(2) by (simp add: fastForward_step [OF True] algebra_simps)
    moreover have "int (Suc k) \<le> n" using k(2) by simp
    moreover have "\<forall>j<Suc k. Before (advance ?iv j currentDate) today"
    proof (intro allI impI)
      fix j assume "j < Suc k"
      then show "Before (advance ?iv j currentDate) today"
        using True x k(3) by (cases j) simp_all
    qed
    moreover have "int (Suc k) < n \<longrightarrow> \<not> Before (advance ?iv (Suc k) currentDate) today"
      using k(4) x by simp
    ultimately show ?thesis by blast
  next
    case False
    then have "fastForward recExp today currentDate n = Some (currentDate, n)"
      by (rule fastForward_stop)
    with False "1.prems"(3) show ?thesis by (intro exI [of _ 0]) auto
  qed
qed

lemma length_emitLoop: "length (emitLoop recExp uuids i d n) \<le> n"
  by (induction n arbitrary: i d) (auto split: option.splits)

lemma emitLoop_dates_indep:
  "map Date (emitLoop recExp uuids i d n) = map Date (emitLoop recExp uuids' i' d n)"
  by (induction n arbitrary: i i' d) (auto simp: newExpense_def split: option.splits)

lemma emitLoop_dates_ge:
  "x \<in> set (emitLoop recExp uuids i d n) \<Longrightarrow> d \<le> Date x"
proof (induction n arbitrary: i d)
  case 0
  then show ?case by simp
next
  case (Suc n)
  show ?case
  proof (cases "nextDate (Interval recExp) d")
    case None
    with Suc.prems show ?thesis by (simp add: newExpense_def)
  next
    case (Some d')
    with Suc.prems consider "x = newExpense recExp (uuids i) d"
      | "x \<in> set (emitLoop recExp uuids (Suc i) d' n)" by auto
    then show ?thesis
    proof cases
      case 1
      then show ?thesis by (simp add: newExpense_def)
    next
      case 2
      from Suc.IH [OF 2] nextDate_gt [OF Some] show ?thesis by simp
    qed
  qed
qed

lemma emitLoop_dates_ascending:
  "sorted_wrt (<) (map Date (emitLoop recExp uuids i d n))"
proof (induction n arbitrary: i d)
  case 0
  show ?case by simp
next
  case (Suc n)
  show ?case
  proof (cases "nextDate (Interval recExp) d")
    case None
    then show ?thesis by simp
  next
    case (Some d')
    have "d < Date x" if "x \<in> set (emitLoop recExp uuids (Suc i) d' n)" for x
      using emitLoop_dates_ge [OF that] nextDate_gt [OF Some] by simp
    with Some Suc.IH [of "Suc i" d'] show ?thesis by (auto simp: newExpense_def)
  qed
qed

lemma generate_RecurringID:
  "e \<in> set (generateExpensesFromRecurring today uuids recExp fromToday)
   \<Longrightarrow> RecurringID e = RecurringExpense.ID recExp"
proof -
  have "e \<in> set (emitLoop recExp uuids i d n) \<Longrightarrow> RecurringID e = RecurringExpense.ID recExp"
    for i d n
    by (induction n arbitrary: i d) (auto simp: newExpense_def split: option.splits)
  then show "e \<in> set (generateExpensesFromRecurring today uuids recExp fromToday)
   \<Longrightarrow> RecurringID e = RecurringExpense.ID recExp"
    by (auto simp: generateExpensesFromRecurring_def split: option.splits if_splits)
qed

lemma generate_ID_range:
  "e \<in> set (generateExpensesFromRecurring today uuids recExp fromToday)
   \<Longrightarrow> Expense.ID e \<in> range uuids"
proof -
  have "e \<in> set (emitLoop recExp uuids i d n) \<Longrightarrow> Expense.ID e \<in> range uuids"
    for i d n
    by (induction n arbitrary: i d) (auto simp: newExpense_def split: option.splits)
  then show "e \<in> set (generateExpensesFromRecurring today uuids recExp fromToday)
   \<Longrightarrow> Expense.ID e \<in> range uuids"
    by (auto simp: generateExpensesFromRecurring_def split: option.splits if_splits)
qed

lemma fastForward_reaches_today:
  "fastForward recExp today cur n = Some (d, n') \<Longrightarrow> 0 < n' \<Longrightarrow> \<not> Before d today"
proof (induction recExp today cur n rule: fastForward.induct)
  case (1 recExp today currentDate n)
  show ?case
  proof (cases "Before currentDate today \<and> (Occurrences recExp = 0 \<or> 0 < n)")
    case True
    with "1.prems" obtain x where x: "nextDate (Interval recExp) currentDate = Some x"
      by (auto simp: fastForward_step [OF True] split: option.splits)
    with "1.prems" have "fastForward recExp today x
        (if 0 < Occurrences recExp then n - 1 else n) = Some (d, n')"
      by (simp add: fastForward_step [OF True])
    with "1.IH" [OF True x] "1.prems"(2) show ?thesis by simp
  next
    case False
    with "1.prems" show ?thesis by (auto simp: fastForward_stop [OF False])
  qed
qed

lemma generate_fromToday_dates:
  assumes "e \<in> set (generateExpensesFromRecurring today uuids recExp True)"
  shows "today \<le> Date e"
proof (cases "fastForward recExp today (StartDate recExp) (Occurrences recExp)")
  case None
  with assms show ?thesis by (simp add: generateExpensesFromRecurring_def)
next
  case (Some p)
  obtain d n where p: "p = (d, n)" by (cases p)
  with Some assms have e: "e \<in> set (emitLoop recExp uuids 0 d (nat n))"
    by (simp add: generateExpensesFromRecurring_def)
  then have "0 < n" by (cases "nat n") auto
  with fastForward_reaches_today [OF Some [unfolded p]] have "today \<le> d"
    by (simp add: Before_def)
  with emitLoop_dates_ge [OF e] show ?thesis by simp
qed

section \<open>Facts about the partial update\<close>

lemma withDefaults_ID: "RecurringExpense.ID (withDefaults s rid recurringExpense) = rid"
  by (simp add: withDefaults_def Let_def)

lemma update_partial_expenses:
  assumes "UpdateRecurringExpense s clock uuids rid newRule False = (None, s')"
  shows "expenses (db s') =
           filter (\<lambda>e. \<not> (RecurringID e = rid \<and> clock 0 < Date e)) (expenses (db s))
           @ generateExpensesFromRecurring (clock 1) uuids (withDefaults s rid newRule) True"
proof -
  let ?re = "withDefaults s rid newRule"
  let ?add = "generateExpensesFromRecurring (clock 1) uuids ?re True"
  obtain tx1 rows where u: "execUpdateRule rid ?re (db s) = (tx1, rows)"
    by (cases "execUpdateRule rid ?re (db s)")
  then have e1: "expenses tx1 = expenses (db s)"
    by (auto simp: execUpdateRule_def)
  let ?tx2 = "execDeleteInstancesAfter rid (clock 0) tx1"
  have e2: "expenses ?tx2
      = filter (\<lambda>e. \<not> (RecurringID e = rid \<and> clock 0 < Date e)) (expenses (db s))"
    using e1 by (simp add: execDeleteInstancesAfter_def)
  show ?thesis
  proof (cases "?add = []")
    case True
    with assms u e2 show ?thesis
      by (auto simp: UpdateRecurringExpense_def transaction_def Let_def split: if_splits)
  next
    case False
    with assms u have "copyIn ?add ?tx2 = Inr (db s')"
      by (auto simp: UpdateRecurringExpense_def transaction_def Let_def
          split: if_splits sum.splits)
    then have "db s' = ?tx2\<lparr>expenses := expenses ?tx2 @ ?add\<rparr>"
      by (simp add: copyIn_def split: if_splits)
    with e2 show ?thesis by simp
  qed
qed

section \<open>The example data evaluated\<close>

lemma mkTime_eval:
  "mkTime 2026 1 1 0 = 63902822400000000000"
  "mkTime 2026 1 2 0 = 63902908800000000000"
  "mkTime 2026 1 1 noon = 63902865600000000000"
  by (simp_all add: mkTime_def noon_def nsPerDay_def dateToDays_def
      daysSinceEpoch_def monthStart_def daysBefore_def isLeap_def Let_def)

lemma mkTime_eval2:
  "mkTime 2025 12 31 0 = 63902736000000000000"
  "mkTime 2026 1 3 0 = 63902995200000000000"
  "mkTime 2026 1 4 0 = 63903081600000000000"
  "mkTime 2026 1 5 0 = 63903168000000000000"
  "mkTime 2026 1 9 0 = 63903513600000000000"
  "mkTime 2026 1 3 noon = 63903038400000000000"
  by (simp_all add: mkTime_def noon_def nsPerDay_def dateToDays_def
      daysSinceEpoch_def monthStart_def daysBefore_def isLeap_def Let_def)

lemma gym_from_start:
  "generateExpensesFromRecurring (mkTime 2026 1 1 0) uuids gymRule True
   = [newExpense gymRule (uuids 0) (mkTime 2026 1 1 0),
      newExpense gymRule (uuids 1) (mkTime 2026 1 2 0),
      newExpense gymRule (uuids 2) (mkTime 2026 1 3 0),
      newExpense gymRule (uuids 3) (mkTime 2026 1 4 0),
      newExpense gymRule (uuids 4) (mkTime 2026 1 5 0)]"
proof -
  have iv: "Interval gymRule = ''daily''" by (simp add: gymRule_def)
  have "\<not> (Before (mkTime 2026 1 1 0) (mkTime 2026 1 1 0)
      \<and> (Occurrences gymRule = 0 \<or> 0 < Occurrences gymRule))"
    by (simp add: Before_def)
  then have "fastForward gymRule (mkTime 2026 1 1 0) (mkTime 2026 1 1 0) (Occurrences gymRule)
      = Some (mkTime 2026 1 1 0, Occurrences gymRule)"
    by (rule fastForward_stop)
  moreover have "StartDate gymRule = mkTime 2026 1 1 0" "nat (Occurrences gymRule) = 5"
    by (simp_all add: gymRule_def)
  ultimately show ?thesis
    by (simp add: generateExpensesFromRecurring_def eval_nat_numeral iv nextDate_def
        AddDate_days mkTime_eval mkTime_eval2 nsPerDay_def)
qed

lemma gym_from_jan3:
  "generateExpensesFromRecurring (demoClock 1) uuids gymRule True
   = [newExpense gymRule (uuids 0) (mkTime 2026 1 4 0),
      newExpense gymRule (uuids 1) (mkTime 2026 1 5 0)]"
proof -
  have step: "fastForward gymRule (demoClock 1) d n
      = fastForward gymRule (demoClock 1) (d + nsPerDay) (n - 1)"
    if "Before d (demoClock 1)" "0 < n" for d n
    using that by (simp add: fastForward_step nextDate_def AddDate_days gymRule_def)
  have b: "Before (mkTime 2026 1 1 0) (demoClock 1)" "Before (mkTime 2026 1 2 0) (demoClock 1)"
    "Before (mkTime 2026 1 3 0) (demoClock 1)" "\<not> Before (mkTime 2026 1 4 0) (demoClock 1)"
    by (simp_all add: Before_def demoClock_def mkTime_eval mkTime_eval2)
  have d: "mkTime 2026 1 1 0 + nsPerDay = mkTime 2026 1 2 0"
    "mkTime 2026 1 2 0 + nsPerDay = mkTime 2026 1 3 0"
    "mkTime 2026 1 3 0 + nsPerDay = mkTime 2026 1 4 0"
    by (simp_all add: mkTime_eval mkTime_eval2 nsPerDay_def)
  have "fastForward gymRule (demoClock 1) (mkTime 2026 1 4 0) 2 = Some (mkTime 2026 1 4 0, 2)"
    using b(4) by (simp add: fastForward_stop)
  then have "fastForward gymRule (demoClock 1) (mkTime 2026 1 3 0) 3 = Some (mkTime 2026 1 4 0, 2)"
    using step [OF b(3), of 3] d(3) by simp
  then have "fastForward gymRule (demoClock 1) (mkTime 2026 1 2 0) 4 = Some (mkTime 2026 1 4 0, 2)"
    using step [OF b(2), of 4] d(2) by simp
  then have ff: "fastForward gymRule (demoClock 1) (mkTime 2026 1 1 0) 5
      = Some (mkTime 2026 1 4 0, 2)"
    using step [OF b(1), of 5] d(1) by simp
  have "StartDate gymRule = mkTime 2026 1 1 0" "Occurrences gymRule = 5"
    "Interval gymRule = ''daily''"
    by (simp_all add: gymRule_def)
  with ff show ?thesis
    by (simp add: generateExpensesFromRecurring_def eval_nat_numeral nextDate_def
        AddDate_days mkTime_eval mkTime_eval2 nsPerDay_def)
qed

section \<open>The claims\<close>

text \<open>
  Claim C1 as stated fails at the cutover instant itself.  The \<^verbatim>\<open>DELETE\<close> removes the
  entries of the rule dated strictly after the clock reading, the fast-forward loop stops
  at the first cursor that is not before the clock reading, so an entry dated exactly at
  the reading is produced by the expansion without being dated after it.  Below, both
  readings of the clock are 2026-01-01 00:00 and the new rule starts at that instant: the
  expansion produces five entries, the update succeeds, and only four of the five are
  dated after the cutover.
\<close>

theorem C1_counterexample:
  "fst (UpdateRecurringExpense demoStore boundaryClock uuidSeq ''rule-1'' gymRule False) = None
   \<and> map Expense.ID (generateExpensesFromRecurring (boundaryClock 1) uuidSeq
         (withDefaults demoStore ''rule-1'' gymRule) True)
       = [''uuid-'', ''uuid-x'', ''uuid-xx'', ''uuid-xxx'', ''uuid-xxxx'']
   \<and> map Expense.ID (filter (\<lambda>e. RecurringID e = ''rule-1'' \<and> boundaryClock 0 < Date e)
         (expenses (db (snd (UpdateRecurringExpense demoStore boundaryClock uuidSeq ''rule-1''
            gymRule False)))))
       = [''uuid-x'', ''uuid-xx'', ''uuid-xxx'', ''uuid-xxxx'']
   \<and> map Expense.ID (expenses (db (snd (UpdateRecurringExpense demoStore boundaryClock uuidSeq
         ''rule-1'' gymRule False))))
       = [''e-1'', ''e-3'', ''uuid-'', ''uuid-x'', ''uuid-xx'', ''uuid-xxx'', ''uuid-xxxx'']
   \<and> Date (hd (generateExpensesFromRecurring (boundaryClock 1) uuidSeq
         (withDefaults demoStore ''rule-1'' gymRule) True)) = boundaryClock 0
   \<and> filter (\<lambda>e. RecurringID e = ''rule-1'' \<and> boundaryClock 0 < Date e)
         (expenses (db (snd (UpdateRecurringExpense demoStore boundaryClock uuidSeq ''rule-1''
            gymRule False))))
       \<noteq> generateExpensesFromRecurring (boundaryClock 1) uuidSeq
           (withDefaults demoStore ''rule-1'' gymRule) True"
proof -
  have re: "withDefaults demoStore ''rule-1'' gymRule = gymRule"
    by (simp add: withDefaults_def gymRule_def Let_def)
  have gen: "generateExpensesFromRecurring (boundaryClock 1) uuidSeq gymRule True
      = [newExpense gymRule ''uuid-'' (mkTime 2026 1 1 0),
         newExpense gymRule ''uuid-x'' (mkTime 2026 1 2 0),
         newExpense gymRule ''uuid-xx'' (mkTime 2026 1 3 0),
         newExpense gymRule ''uuid-xxx'' (mkTime 2026 1 4 0),
         newExpense gymRule ''uuid-xxxx'' (mkTime 2026 1 5 0)]"
    using gym_from_start [of uuidSeq]
    by (simp add: boundaryClock_def uuidSeq_def eval_nat_numeral)
  have gen': "generateExpensesFromRecurring (boundaryClock (if False then 0 else 1)) uuidSeq
      gymRule (\<not> False) = generateExpensesFromRecurring (boundaryClock 1) uuidSeq gymRule True"
    by simp
  have upd: "UpdateRecurringExpense demoStore boundaryClock uuidSeq ''rule-1'' gymRule False
      = (None, demoStore\<lparr>db := (db demoStore)\<lparr>
           recurring_expenses := [gymRule],
           expenses := [expenses (db demoStore) ! 0, expenses (db demoStore) ! 2]
             @ generateExpensesFromRecurring (boundaryClock 1) uuidSeq gymRule True\<rparr>\<rparr>)"
    unfolding UpdateRecurringExpense_def Let_def re gen'
    unfolding gen
    by (simp add: transaction_def execUpdateRule_def execDeleteInstancesAfter_def copyIn_def
        boundaryClock_def newExpense_def demoStore_def mkTime_eval mkTime_eval2 gymRule_def)
  show ?thesis
    unfolding upd re
    unfolding gen
    by (simp add: boundaryClock_def newExpense_def demoStore_def mkTime_eval
        mkTime_eval2 gymRule_def)
qed

text \<open>
  Claim C1, amended.  Let \<^verbatim>\<open>UpdateRecurringExpense\<close> with \<^verbatim>\<open>updateAll\<close> unset succeed, with
  the clock read as \<open>clock 0\<close> by the \<^verbatim>\<open>DELETE\<close> and as \<open>clock 1\<close>, not earlier, by the
  expansion, and with identifiers that no stored entry carries.  Then the entries after
  the call are the stored ones without those of the rule dated after \<open>clock 0\<close>, in their
  order and unchanged, followed by the entries that the expansion of the new rule (with
  the id of the call and the default currency put in) produces with \<^verbatim>\<open>fromToday\<close> set.
  So every stored entry of the rule dated at or before \<open>clock 0\<close> is still there, every
  stored entry of the rule dated after \<open>clock 0\<close> is gone, and the entries of other rules
  and the manual ones are untouched.  Every produced entry refers to the rule and is dated
  at or after \<open>clock 0\<close>; the entries of the rule dated after \<open>clock 0\<close> are the produced
  ones dated after \<open>clock 0\<close>, and they are all the produced ones when the clock moved
  between the two readings.
\<close>

theorem C1_partial_update:
  assumes ok: "UpdateRecurringExpense s clock uuids rid newRule False = (None, s')"
    and mono: "clock 0 \<le> clock 1"
    and fresh: "range uuids \<inter> Expense.ID ` set (expenses (db s)) = {}"
  shows "expenses (db s') =
           filter (\<lambda>e. \<not> (RecurringID e = rid \<and> clock 0 < Date e)) (expenses (db s))
           @ generateExpensesFromRecurring (clock 1) uuids (withDefaults s rid newRule) True
         \<and> (\<forall>e \<in> set (expenses (db s)).
               RecurringID e = rid \<and> Date e \<le> clock 0 \<longrightarrow> e \<in> set (expenses (db s')))
         \<and> (\<forall>e \<in> set (expenses (db s)).
               RecurringID e = rid \<and> clock 0 < Date e \<longrightarrow> e \<notin> set (expenses (db s')))
         \<and> filter (\<lambda>e. RecurringID e \<noteq> rid) (expenses (db s'))
             = filter (\<lambda>e. RecurringID e \<noteq> rid) (expenses (db s))
         \<and> (\<forall>e \<in> set (generateExpensesFromRecurring (clock 1) uuids
                           (withDefaults s rid newRule) True).
               RecurringID e = rid \<and> clock 0 \<le> Date e)
         \<and> filter (\<lambda>e. RecurringID e = rid \<and> clock 0 < Date e) (expenses (db s'))
             = filter (\<lambda>e. clock 0 < Date e)
                 (generateExpensesFromRecurring (clock 1) uuids (withDefaults s rid newRule) True)
         \<and> (clock 0 < clock 1 \<longrightarrow>
              filter (\<lambda>e. RecurringID e = rid \<and> clock 0 < Date e) (expenses (db s'))
              = generateExpensesFromRecurring (clock 1) uuids (withDefaults s rid newRule) True)"
proof -
  let ?old = "expenses (db s)"
  let ?add = "generateExpensesFromRecurring (clock 1) uuids (withDefaults s rid newRule) True"
  have eq: "expenses (db s') =
      filter (\<lambda>e. \<not> (RecurringID e = rid \<and> clock 0 < Date e)) ?old @ ?add"
    using ok by (rule update_partial_expenses)
  have add_rid: "RecurringID e = rid" if "e \<in> set ?add" for e
    using generate_RecurringID [OF that] by (simp add: withDefaults_ID)
  have add_date: "clock 1 \<le> Date e" if "e \<in> set ?add" for e
    using that by (rule generate_fromToday_dates)
  have add_new: "e \<notin> set ?old" if "e \<in> set ?add" for e
    using generate_ID_range [OF that] fresh by auto
  have set_eq: "set (expenses (db s')) =
      {e \<in> set ?old. \<not> (RecurringID e = rid \<and> clock 0 < Date e)} \<union> set ?add"
    by (simp add: eq)
  have kept: "\<forall>e \<in> set ?old. RecurringID e = rid \<and> Date e \<le> clock 0
      \<longrightarrow> e \<in> set (expenses (db s'))"
    unfolding set_eq by auto
  have gone: "\<forall>e \<in> set ?old. RecurringID e = rid \<and> clock 0 < Date e
      \<longrightarrow> e \<notin> set (expenses (db s'))"
    unfolding set_eq using add_new by auto
  have others: "filter (\<lambda>e. RecurringID e \<noteq> rid) (expenses (db s'))
      = filter (\<lambda>e. RecurringID e \<noteq> rid) ?old"
  proof -
    have "filter (\<lambda>e. RecurringID e \<noteq> rid) ?add = []"
      using add_rid by (auto simp: filter_empty_conv)
    moreover have "filter (\<lambda>e. RecurringID e \<noteq> rid)
        (filter (\<lambda>e. \<not> (RecurringID e = rid \<and> clock 0 < Date e)) ?old)
        = filter (\<lambda>e. RecurringID e \<noteq> rid) ?old"
      by (auto intro: filter_cong)
    ultimately show ?thesis using eq by simp
  qed
  have produced: "\<forall>e \<in> set ?add. RecurringID e = rid \<and> clock 0 \<le> Date e"
  proof (intro ballI conjI)
    fix e assume e: "e \<in> set ?add"
    show "RecurringID e = rid" using e by (rule add_rid)
    show "clock 0 \<le> Date e" using add_date [OF e] mono by simp
  qed
  have after: "filter (\<lambda>e. RecurringID e = rid \<and> clock 0 < Date e) (expenses (db s'))
      = filter (\<lambda>e. clock 0 < Date e) ?add"
  proof -
    have "filter (\<lambda>e. RecurringID e = rid \<and> clock 0 < Date e)
        (filter (\<lambda>e. \<not> (RecurringID e = rid \<and> clock 0 < Date e)) ?old) = []"
      by (auto simp: filter_empty_conv)
    moreover have "filter (\<lambda>e. RecurringID e = rid \<and> clock 0 < Date e) ?add
        = filter (\<lambda>e. clock 0 < Date e) ?add"
      using add_rid by (auto intro: filter_cong)
    ultimately show ?thesis using eq by simp
  qed
  have strict: "clock 0 < clock 1 \<longrightarrow>
      filter (\<lambda>e. RecurringID e = rid \<and> clock 0 < Date e) (expenses (db s')) = ?add"
  proof
    assume lt: "clock 0 < clock 1"
    have "clock 0 < Date e" if "e \<in> set ?add" for e
      using add_date [OF that] lt by simp
    then have "filter (\<lambda>e. clock 0 < Date e) ?add = ?add"
      by (simp add: filter_id_conv)
    with after show "filter (\<lambda>e. RecurringID e = rid \<and> clock 0 < Date e)
        (expenses (db s')) = ?add" by simp
  qed
  from eq kept gone others produced after strict show ?thesis
    by (intro conjI)
qed

theorem C1_witness:
  "fst (UpdateRecurringExpense demoStore demoClock uuidSeq ''rule-1'' gymRule False) = None
   \<and> demoClock 0 \<le> demoClock 1
   \<and> range uuidSeq \<inter> Expense.ID ` set (expenses (db demoStore)) = {}
   \<and> map Expense.ID (expenses (db (snd (UpdateRecurringExpense demoStore demoClock uuidSeq
         ''rule-1'' gymRule False))))
       = [''e-1'', ''e-3'', ''uuid-'', ''uuid-x'']
   \<and> filter (\<lambda>e. RecurringID e = ''rule-1'' \<and> demoClock 0 < Date e)
         (expenses (db (snd (UpdateRecurringExpense demoStore demoClock uuidSeq ''rule-1''
            gymRule False))))
       = generateExpensesFromRecurring (demoClock 1) uuidSeq
           (withDefaults demoStore ''rule-1'' gymRule) True"
proof -
  have re: "withDefaults demoStore ''rule-1'' gymRule = gymRule"
    by (simp add: withDefaults_def gymRule_def Let_def)
  have gen: "generateExpensesFromRecurring (demoClock 1) uuidSeq gymRule True
      = [newExpense gymRule ''uuid-'' (mkTime 2026 1 4 0),
         newExpense gymRule ''uuid-x'' (mkTime 2026 1 5 0)]"
    using gym_from_jan3 [of uuidSeq] by (simp add: uuidSeq_def)
  have gen': "generateExpensesFromRecurring (demoClock (if False then 0 else 1)) uuidSeq
      gymRule (\<not> False) = generateExpensesFromRecurring (demoClock 1) uuidSeq gymRule True"
    by simp
  have upd: "UpdateRecurringExpense demoStore demoClock uuidSeq ''rule-1'' gymRule False
      = (None, demoStore\<lparr>db := (db demoStore)\<lparr>
           recurring_expenses := [gymRule],
           expenses := [expenses (db demoStore) ! 0, expenses (db demoStore) ! 2]
             @ generateExpensesFromRecurring (demoClock 1) uuidSeq gymRule True\<rparr>\<rparr>)"
    unfolding UpdateRecurringExpense_def Let_def re gen'
    unfolding gen
    by (simp add: transaction_def execUpdateRule_def execDeleteInstancesAfter_def copyIn_def
        demoClock_def newExpense_def demoStore_def mkTime_eval mkTime_eval2 gymRule_def)
  have h1: "UpdateRecurringExpense demoStore demoClock uuidSeq ''rule-1'' gymRule False
      = (None, snd (UpdateRecurringExpense demoStore demoClock uuidSeq ''rule-1'' gymRule False))"
    by (simp add: upd)
  have h2: "demoClock 0 \<le> demoClock 1" and lt: "demoClock 0 < demoClock 1"
    by (simp_all add: demoClock_def)
  have h3: "range uuidSeq \<inter> Expense.ID ` set (expenses (db demoStore)) = {}"
    by (auto simp: uuidSeq_def demoStore_def)
  have ids: "map Expense.ID (expenses (db (snd (UpdateRecurringExpense demoStore demoClock
      uuidSeq ''rule-1'' gymRule False)))) = [''e-1'', ''e-3'', ''uuid-'', ''uuid-x'']"
    unfolding upd gen by (simp add: newExpense_def demoStore_def)
  from C1_partial_update [OF h1 h2 h3]
  have "demoClock 0 < demoClock 1 \<longrightarrow>
      filter (\<lambda>e. RecurringID e = ''rule-1'' \<and> demoClock 0 < Date e)
         (expenses (db (snd (UpdateRecurringExpense demoStore demoClock uuidSeq ''rule-1''
            gymRule False))))
       = generateExpensesFromRecurring (demoClock 1) uuidSeq
           (withDefaults demoStore ''rule-1'' gymRule) True"
    by (elim conjE)
  with lt have "filter (\<lambda>e. RecurringID e = ''rule-1'' \<and> demoClock 0 < Date e)
         (expenses (db (snd (UpdateRecurringExpense demoStore demoClock uuidSeq ''rule-1''
            gymRule False))))
       = generateExpensesFromRecurring (demoClock 1) uuidSeq
           (withDefaults demoStore ''rule-1'' gymRule) True"
    by (rule rev_mp)
  moreover have "fst (UpdateRecurringExpense demoStore demoClock uuidSeq ''rule-1'' gymRule False)
      = None"
    by (simp add: upd)
  ultimately show ?thesis
    using h2 h3 ids by (intro conjI)
qed

text \<open>
  Claim C2.  When no row of \<^verbatim>\<open>recurring_expenses\<close> has the id of the call,
  \<^verbatim>\<open>UpdateRecurringExpense\<close> and \<^verbatim>\<open>RemoveRecurringExpense\<close> both return their not-found
  error, whatever the flag, and the store after the call is the store before it: both
  tables and the defaults.
\<close>

theorem C2_not_found_changes_nothing:
  assumes "filter (\<lambda>row. RecurringExpense.ID row = rid) (recurring_expenses (db s)) = []"
  shows "UpdateRecurringExpense s clock uuids rid recurringExpense updateAll
           = (Some (NotFoundToUpdate rid), s)
         \<and> RemoveRecurringExpense s clock rid removeAll' = (Some (NotFound rid), s)"
  using assms
  by (simp add: UpdateRecurringExpense_def RemoveRecurringExpense_def transaction_def
      execUpdateRule_def execDeleteRule_def Let_def)

theorem C2_witness:
  "filter (\<lambda>row. RecurringExpense.ID row = ''rule-7'') (recurring_expenses (db demoStore)) = []
   \<and> UpdateRecurringExpense demoStore demoClock uuidSeq ''rule-7'' gymRule False
       = (Some (NotFoundToUpdate ''rule-7''), demoStore)
   \<and> RemoveRecurringExpense demoStore demoClock ''rule-7'' True
       = (Some (NotFound ''rule-7''), demoStore)"
proof -
  have h: "filter (\<lambda>row. RecurringExpense.ID row = ''rule-7'')
      (recurring_expenses (db demoStore)) = []"
    by (simp add: demoStore_def gymRule_def)
  from C2_not_found_changes_nothing [OF h] h show ?thesis by simp
qed

text \<open>
  Claim C3 as stated fails.  The claim has a fast-forward step consume a unit of the budget
  only when the cursor it produces is still before \<open>today\<close>.  The loop takes a unit off for
  every step of a bounded rule.  For the daily rule starting 2026-01-01 00:00 with budget 5
  and \<open>today\<close> at noon of that day, the loop makes one step, to 2026-01-02 00:00, which
  is not before \<open>today\<close>; none of the steps lands before \<open>today\<close>, and yet one unit is
  gone and four remain.
\<close>

theorem C3_counterexample:
  "fastForward gymRule (mkTime 2026 1 1 noon) (StartDate gymRule) (Occurrences gymRule)
     = Some (mkTime 2026 1 2 0, 4)
   \<and> advance (Interval gymRule) 1 (StartDate gymRule) = mkTime 2026 1 2 0
   \<and> \<not> Before (mkTime 2026 1 2 0) (mkTime 2026 1 1 noon)
   \<and> stepsLandingBefore (Interval gymRule) (mkTime 2026 1 1 noon) (StartDate gymRule) 1 = 0
   \<and> fastForwardConsumed gymRule (mkTime 2026 1 1 noon) True = 1
   \<and> fastForwardConsumed gymRule (mkTime 2026 1 1 noon) True
       \<noteq> int (stepsLandingBefore (Interval gymRule) (mkTime 2026 1 1 noon)
               (StartDate gymRule) 1)"
proof -
  have n: "nextDate ''daily'' (mkTime 2026 1 1 0) = Some (mkTime 2026 1 2 0)"
    using mkTime_add_days [of 2026 1 1 0 1] by (simp add: nextDate_def AddDate_days)
  have b: "Before (mkTime 2026 1 1 0) (mkTime 2026 1 1 noon)"
    "\<not> Before (mkTime 2026 1 2 0) (mkTime 2026 1 1 noon)"
    by (simp_all add: Before_def mkTime_eval)
  have s2: "fastForward gymRule (mkTime 2026 1 1 noon) (mkTime 2026 1 2 0) 4
      = Some (mkTime 2026 1 2 0, 4)"
    using b(2) by (simp add: fastForward_stop)
  have s1: "fastForward gymRule (mkTime 2026 1 1 noon) (mkTime 2026 1 1 0) 5
      = Some (mkTime 2026 1 2 0, 4)"
    using b(1) n s2 by (simp add: fastForward_step gymRule_def)
  have a: "advance ''daily'' 1 (mkTime 2026 1 1 0) = mkTime 2026 1 2 0"
    using n by simp
  show ?thesis
    using s1 a b(2) by (simp add: gymRule_def stepsLandingBefore_def fastForwardConsumed_def)
qed

text \<open>
  Claim C3, amended.  For a rule with a positive budget and a valid interval the
  fast-forward loop makes some number \<open>k\<close> of steps from the start date: the cursor was
  before \<open>today\<close> ahead of each of them, \<open>k\<close> is at most the budget, the loop stops before
  the budget is used up only when the cursor is no longer before \<open>today\<close>, and every one of
  the \<open>k\<close> steps takes one unit off the budget, wherever it lands.
\<close>

theorem C3_fast_forward_consumes_every_step:
  assumes "0 < Occurrences recExp" and "validInterval (Interval recExp)"
  shows "\<exists>k. fastForward recExp today (StartDate recExp) (Occurrences recExp)
             = Some (advance (Interval recExp) k (StartDate recExp), Occurrences recExp - int k)
           \<and> fastForwardConsumed recExp today True = int k
           \<and> int k \<le> Occurrences recExp
           \<and> (\<forall>j<k. Before (advance (Interval recExp) j (StartDate recExp)) today)
           \<and> (int k < Occurrences recExp
                \<longrightarrow> \<not> Before (advance (Interval recExp) k (StartDate recExp)) today)"
proof -
  from fastForward_steps [OF assms(2,1), of "Occurrences recExp" today "StartDate recExp"] assms(1)
  obtain k where k:
    "fastForward recExp today (StartDate recExp) (Occurrences recExp)
       = Some (advance (Interval recExp) k (StartDate recExp), Occurrences recExp - int k)"
    "int k \<le> Occurrences recExp"
    "\<forall>j<k. Before (advance (Interval recExp) j (StartDate recExp)) today"
    "int k < Occurrences recExp
       \<longrightarrow> \<not> Before (advance (Interval recExp) k (StartDate recExp)) today"
    by auto
  from k(1) have "fastForwardConsumed recExp today True = int k"
    by (simp add: fastForwardConsumed_def)
  with k show ?thesis by blast
qed

theorem C3_witness:
  "0 < Occurrences gymRule \<and> validInterval (Interval gymRule)
   \<and> (\<exists>k. fastForward gymRule (mkTime 2026 1 1 noon) (StartDate gymRule) (Occurrences gymRule)
             = Some (advance (Interval gymRule) k (StartDate gymRule), Occurrences gymRule - int k)
           \<and> fastForwardConsumed gymRule (mkTime 2026 1 1 noon) True = int k)"
proof -
  have h: "0 < Occurrences gymRule" "validInterval (Interval gymRule)"
    by (simp_all add: gymRule_def validInterval_def)
  from C3_fast_forward_consumes_every_step [OF h, of "mkTime 2026 1 1 noon"] h
  show ?thesis by blast
qed

text \<open>
  Claim C4.  A rule whose budget is 0 expands to no entry when \<^verbatim>\<open>fromToday\<close> is unset.
\<close>

theorem C4_unbounded_no_entries:
  "Occurrences recExp = 0 \<Longrightarrow> generateExpensesFromRecurring today uuids recExp False = []"
  by (simp add: generateExpensesFromRecurring_def)

theorem C4_witness:
  "Occurrences (gymRule\<lparr>Occurrences := 0\<rparr>) = 0
   \<and> generateExpensesFromRecurring (mkTime 2026 3 15 0) uuidSeq (gymRule\<lparr>Occurrences := 0\<rparr>) False = []"
  using C4_unbounded_no_entries [of "gymRule\<lparr>Occurrences := 0\<rparr>" "mkTime 2026 3 15 0" uuidSeq]
  by simp

text \<open>
  Claim C5.  For a rule with a budget above zero (the data model has no negative budget)
  and either value of \<^verbatim>\<open>fromToday\<close>, the number of entries one call returns plus the
  units the fast-forward loop of that call took off is at most the budget; so the number
  of entries alone is at most the budget.
\<close>

theorem C5_budget_never_exceeded:
  assumes "0 < Occurrences recExp"
  shows "int (length (generateExpensesFromRecurring today uuids recExp fromToday))
           + fastForwardConsumed recExp today fromToday \<le> Occurrences recExp
         \<and> 0 \<le> fastForwardConsumed recExp today fromToday
         \<and> int (length (generateExpensesFromRecurring today uuids recExp fromToday))
             \<le> Occurrences recExp"
proof (cases "fromToday")
  case False
  have "length (emitLoop recExp uuids 0 (StartDate recExp) (nat (Occurrences recExp)))
      \<le> nat (Occurrences recExp)" by (rule length_emitLoop)
  with assms
  have "int (length (emitLoop recExp uuids 0 (StartDate recExp) (nat (Occurrences recExp))))
      \<le> Occurrences recExp" by linarith
  with False assms show ?thesis
    by (simp add: generateExpensesFromRecurring_def fastForwardConsumed_def)
next
  case True
  show ?thesis
  proof (cases "fastForward recExp today (StartDate recExp) (Occurrences recExp)")
    case None
    with True assms show ?thesis
      by (simp add: generateExpensesFromRecurring_def fastForwardConsumed_def)
  next
    case (Some p)
    obtain d n where p: "p = (d, n)" by (cases p)
    from fastForward_bounded [OF assms _ Some [unfolded p]] assms
    have n: "0 \<le> n" "n \<le> Occurrences recExp" by simp_all
    have "length (emitLoop recExp uuids 0 d (nat n)) \<le> nat n" by (rule length_emitLoop)
    with n have "int (length (emitLoop recExp uuids 0 d (nat n))) \<le> n" by linarith
    with True Some p n show ?thesis
      by (simp add: generateExpensesFromRecurring_def fastForwardConsumed_def)
  qed
qed

theorem C5_witness:
  "0 < Occurrences gymRule
   \<and> int (length (generateExpensesFromRecurring (mkTime 2026 1 1 noon) uuidSeq gymRule True))
       + fastForwardConsumed gymRule (mkTime 2026 1 1 noon) True \<le> Occurrences gymRule
   \<and> int (length (generateExpensesFromRecurring (mkTime 2026 1 1 noon) uuidSeq gymRule False))
       \<le> Occurrences gymRule"
proof -
  have h: "0 < Occurrences gymRule" by (simp add: gymRule_def)
  from C5_budget_never_exceeded [OF h, of "mkTime 2026 1 1 noon" uuidSeq True]
    C5_budget_never_exceeded [OF h, of "mkTime 2026 1 1 noon" uuidSeq False] h
  show ?thesis by simp
qed

text \<open>
  Claim C6.  For a rule whose interval is none of the four kinds and either value of
  \<^verbatim>\<open>fromToday\<close> the expansion returns a list and no error: the empty list when the
  fast-forward loop is entered (it meets the interval before any entry is built) or when
  the budget is not positive, and otherwise the one entry at the start date that was built
  before the interval was looked at.
\<close>

theorem C6_invalid_interval_truncates:
  assumes "\<not> validInterval (Interval recExp)"
  shows "generateExpensesFromRecurring today uuids recExp fromToday =
           (if 0 < Occurrences recExp \<and> \<not> (fromToday \<and> Before (StartDate recExp) today)
            then [newExpense recExp (uuids 0) (StartDate recExp)] else [])"
proof -
  have emit: "emitLoop recExp uuids 0 (StartDate recExp) (nat (Occurrences recExp)) =
      (if 0 < Occurrences recExp then [newExpense recExp (uuids 0) (StartDate recExp)] else [])"
    using nextDate_invalid [OF assms] by (cases "nat (Occurrences recExp)") auto
  show ?thesis
  proof (cases "fromToday \<and> Before (StartDate recExp) today
      \<and> (Occurrences recExp = 0 \<or> 0 < Occurrences recExp)")
    case True
    then have "fastForward recExp today (StartDate recExp) (Occurrences recExp) = None"
      using nextDate_invalid [OF assms] by (simp add: fastForward_step)
    with True show ?thesis by (auto simp: generateExpensesFromRecurring_def)
  next
    case False
    show ?thesis
    proof (cases fromToday)
      case f: False
      then show ?thesis using emit by (simp add: generateExpensesFromRecurring_def)
    next
      case t: True
      with False have "\<not> (Before (StartDate recExp) today
        \<and> (Occurrences recExp = 0 \<or> 0 < Occurrences recExp))" by simp
      then have "fastForward recExp today (StartDate recExp) (Occurrences recExp)
        = Some (StartDate recExp, Occurrences recExp)" by (rule fastForward_stop)
      with t False emit show ?thesis by (auto simp: generateExpensesFromRecurring_def)
    qed
  qed
qed

theorem C6_witness:
  "\<not> validInterval (Interval (gymRule\<lparr>Interval := ''hourly''\<rparr>))
   \<and> generateExpensesFromRecurring (mkTime 2026 1 1 noon) uuidSeq
         (gymRule\<lparr>Interval := ''hourly''\<rparr>) False
       = [newExpense (gymRule\<lparr>Interval := ''hourly''\<rparr>) (uuidSeq 0) (mkTime 2026 1 1 0)]
   \<and> generateExpensesFromRecurring (mkTime 2026 1 1 noon) uuidSeq
         (gymRule\<lparr>Interval := ''hourly''\<rparr>) True = []"
proof -
  have h: "\<not> validInterval (Interval (gymRule\<lparr>Interval := ''hourly''\<rparr>))"
    by (simp add: validInterval_def)
  have b: "Before (mkTime 2026 1 1 0) (mkTime 2026 1 1 noon)"
    by (simp add: Before_def mkTime_eval)
  from C6_invalid_interval_truncates [OF h, of "mkTime 2026 1 1 noon" uuidSeq False]
    C6_invalid_interval_truncates [OF h, of "mkTime 2026 1 1 noon" uuidSeq True] h b
  show ?thesis by (simp add: gymRule_def)
qed

text \<open>
  Claim C7.  The interval step adds exactly one day for \<^verbatim>\<open>daily\<close> and exactly seven days
  for \<^verbatim>\<open>weekly\<close>.  For \<^verbatim>\<open>monthly\<close> the result has the same time of day and the date of the
  following month with the same day number, and for \<^verbatim>\<open>yearly\<close> the date of the following
  year with the same month and day; a day that the target month does not have rolls
  forward into the month after it.
\<close>

theorem C7_interval_step:
  "nextDate ''daily'' t = Some (t + nsPerDay)
   \<and> nextDate ''weekly'' t = Some (t + 7 * nsPerDay)
   \<and> (case civilDate t of (year, month, day) \<Rightarrow>
        map_option civilDate (nextDate ''monthly'' t)
          = Some (case nextMonth year month of (y, m) \<Rightarrow> rollForward y m day)
        \<and> map_option civilDate (nextDate ''yearly'' t) = Some (rollForward (year + 1) month day))
   \<and> map_option clockOf (nextDate ''monthly'' t) = Some (clockOf t)
   \<and> map_option clockOf (nextDate ''yearly'' t) = Some (clockOf t)"
proof -
  obtain y m d where c: "civilDate t = (y, m, d)" by (cases "civilDate t")
  note s = civilDate_sound [OF c]
  have d31: "d \<le> 31" using s(5) daysIn_bounds(2) [OF s(2,3), of y] by simp
  obtain y' m' where nm: "nextMonth y m = (y', m')" by (cases "nextMonth y m")
  have monthly: "civilDate (AddDate t 0 1 0) = rollForward y' m' d"
    using c dateToDays_nextMonth [OF s(2,3), of y d] nm
      daysToDate_rollForward [OF nextMonth_range [OF s(2,3) nm] s(4) d31, of y']
    by (simp add: AddDate_def civilDate_mkTime_clock)
  have yearly: "civilDate (AddDate t 1 0 0) = rollForward (y + 1) m d"
    using c daysToDate_rollForward [OF s(2,3,4) d31, of "y + 1"]
    by (simp add: AddDate_def civilDate_mkTime_clock)
  have clocks: "clockOf (AddDate t 0 1 0) = clockOf t" "clockOf (AddDate t 1 0 0) = clockOf t"
    using c by (simp_all add: AddDate_def civilDate_mkTime_clock)
  show ?thesis
    using c nm monthly yearly clocks by (simp add: nextDate_def AddDate_days)
qed

theorem C7_witness:
  "nextDate ''daily'' (mkTime 2026 1 31 noon) = Some (mkTime 2026 2 1 noon)
   \<and> nextDate ''weekly'' (mkTime 2026 1 31 noon) = Some (mkTime 2026 2 7 noon)
   \<and> civilDate (mkTime 2026 1 31 noon) = (2026, 1, 31)
   \<and> map_option civilDate (nextDate ''monthly'' (mkTime 2026 1 31 noon)) = Some (2026, 3, 3)
   \<and> map_option civilDate (nextDate ''yearly'' (mkTime 2024 2 29 noon)) = Some (2025, 3, 1)"
proof -
  have a: "civilDate (mkTime 2026 1 31 noon) = (2026, 1, 31)"
    and b: "civilDate (mkTime 2024 2 29 noon) = (2024, 2, 29)"
    by (simp_all add: civilDate_def mkTime_def noon_def nsPerDay_def dateToDays_def
        daysSinceEpoch_def monthStart_def daysBefore_def isLeap_def daysToDate_def yearOfDays_def
        monthOfYday_def Let_def)
  have r: "rollForward 2026 2 31 = (2026, 3, 3)" "rollForward 2025 2 29 = (2025, 3, 1)"
    by (simp_all add: rollForward_def nextMonth_def daysIn_def daysBefore_def isLeap_def)
  have e: "mkTime 2026 1 31 noon + nsPerDay = mkTime 2026 2 1 noon"
    "mkTime 2026 1 31 noon + 7 * nsPerDay = mkTime 2026 2 7 noon"
    by (simp_all add: mkTime_def noon_def nsPerDay_def dateToDays_def
        daysSinceEpoch_def monthStart_def daysBefore_def isLeap_def Let_def)
  show ?thesis
    using C7_interval_step [of "mkTime 2026 1 31 noon"]
      C7_interval_step [of "mkTime 2024 2 29 noon"] a b r e
    by (simp add: nextMonth_def)
qed

text \<open>
  Claim C8.  The daily rule starting 2026-01-01 (midnight UTC) with budget 5 expands,
  with \<^verbatim>\<open>fromToday\<close> unset, to exactly five entries dated 2026-01-01 to 2026-01-05 in this
  order.  Each has the rule's name, category, amount, currency and tags, the rule's id as
  its \<^verbatim>\<open>RecurringID\<close>, and an identifier of its own from the supply.
\<close>

theorem C8_daily_five:
  "generateExpensesFromRecurring today uuids
     \<lparr>RecurringExpense.ID = rid, Name = name, Amount = amount, Currency = currency,
      Category = category, StartDate = mkTime 2026 1 1 0, Interval = ''daily'',
      Occurrences = 5, Tags = tags\<rparr> False
   = [\<lparr>Expense.ID = uuids 0, RecurringID = rid, Name = name, Category = category,
        SubCategory = [], Amount = amount, Currency = currency,
        Date = mkTime 2026 1 1 0, Tags = tags\<rparr>,
      \<lparr>Expense.ID = uuids 1, RecurringID = rid, Name = name, Category = category,
        SubCategory = [], Amount = amount, Currency = currency,
        Date = mkTime 2026 1 2 0, Tags = tags\<rparr>,
      \<lparr>Expense.ID = uuids 2, RecurringID = rid, Name = name, Category = category,
        SubCategory = [], Amount = amount, Currency = currency,
        Date = mkTime 2026 1 3 0, Tags = tags\<rparr>,
      \<lparr>Expense.ID = uuids 3, RecurringID = rid, Name = name, Category = category,
        SubCategory = [], Amount = amount, Currency = currency,
        Date = mkTime 2026 1 4 0, Tags = tags\<rparr>,
      \<lparr>Expense.ID = uuids 4, RecurringID = rid, Name = name, Category = category,
        SubCategory = [], Amount = amount, Currency = currency,
        Date = mkTime 2026 1 5 0, Tags = tags\<rparr>]"
proof -
  have days: "mkTime 2026 1 1 0 + nsPerDay = mkTime 2026 1 2 0"
    "mkTime 2026 1 2 0 + nsPerDay = mkTime 2026 1 3 0"
    "mkTime 2026 1 3 0 + nsPerDay = mkTime 2026 1 4 0"
    "mkTime 2026 1 4 0 + nsPerDay = mkTime 2026 1 5 0"
    using mkTime_add_days [of 2026 1 1 0 1] mkTime_add_days [of 2026 1 2 0 1]
      mkTime_add_days [of 2026 1 3 0 1] mkTime_add_days [of 2026 1 4 0 1]
    by simp_all
  show ?thesis
    unfolding generateExpensesFromRecurring_def
    by (simp add: eval_nat_numeral nextDate_def AddDate_days days newExpense_def)
qed

text \<open>
  Claim C9.  With \<^verbatim>\<open>fromToday\<close> unset the dates of the expansion depend on the rule
  alone: two calls, at any two readings of the clock and with any two identifier
  supplies, return lists of the same length with the same dates in the same order, and
  that order is strictly ascending.
\<close>

theorem C9_dates_deterministic:
  "map Date (generateExpensesFromRecurring today uuids recExp False)
     = map Date (generateExpensesFromRecurring today' uuids' recExp False)
   \<and> length (generateExpensesFromRecurring today uuids recExp False)
     = length (generateExpensesFromRecurring today' uuids' recExp False)
   \<and> sorted_wrt (<) (map Date (generateExpensesFromRecurring today uuids recExp False))"
proof -
  have "map Date (generateExpensesFromRecurring today uuids recExp False)
     = map Date (generateExpensesFromRecurring today' uuids' recExp False)"
    by (simp add: generateExpensesFromRecurring_def emitLoop_dates_indep [of recExp uuids 0 _ _ uuids' 0])
  moreover from this have "length (generateExpensesFromRecurring today uuids recExp False)
     = length (generateExpensesFromRecurring today' uuids' recExp False)"
    by (rule map_eq_imp_length_eq)
  moreover have "sorted_wrt (<) (map Date (generateExpensesFromRecurring today uuids recExp False))"
    by (simp add: generateExpensesFromRecurring_def emitLoop_dates_ascending)
  ultimately show ?thesis by blast
qed

text \<open>
  Claim C10.  A rule whose budget is 0 expands to no entry with \<^verbatim>\<open>fromToday\<close> set as well:
  the fast-forward loop leaves the budget at 0, which is then the limit of the second
  loop.
\<close>

theorem C10_unbounded_fast_forward_no_entries:
  "Occurrences recExp = 0 \<Longrightarrow>
   generateExpensesFromRecurring today uuids recExp True = []
   \<and> (case fastForward recExp today (StartDate recExp) (Occurrences recExp) of
        None \<Rightarrow> True | Some (currentDate, limit) \<Rightarrow> limit = 0)"
proof -
  assume z: "Occurrences recExp = 0"
  show ?thesis
  proof (cases "fastForward recExp today (StartDate recExp) (Occurrences recExp)")
    case None
    then show ?thesis by (simp add: generateExpensesFromRecurring_def)
  next
    case (Some p)
    obtain d n where p: "p = (d, n)" by (cases p)
    from fastForward_unbounded [OF z] Some p z have "n = 0" by simp
    with Some p show ?thesis by (simp add: generateExpensesFromRecurring_def)
  qed
qed

theorem C10_witness:
  "Occurrences (gymRule\<lparr>Occurrences := 0\<rparr>) = 0
   \<and> generateExpensesFromRecurring (mkTime 2026 3 15 0) uuidSeq (gymRule\<lparr>Occurrences := 0\<rparr>) True = []"
  using C10_unbounded_fast_forward_no_entries
    [of "gymRule\<lparr>Occurrences := 0\<rparr>" "mkTime 2026 3 15 0" uuidSeq]
  by simp

end
